theory Spec2Isabelle
  imports Main
begin

section \<open>The signaling relay of server.js\<close>

text \<open>
  The development follows the first program of \<^verbatim>\<open>src/server.js\<close>: the upgrade handler
  (admission), \<^verbatim>\<open>send\<close>, the per-connection handlers for \<^verbatim>\<open>message\<close>, \<^verbatim>\<open>pong\<close> and
  \<^verbatim>\<open>close\<close>, and the heartbeat interval. Node runs each handler to completion before the
  next one starts, so a handler is a function from the server state to the server state.
\<close>

subsection \<open>JSON values\<close>

text \<open>
  The result of \<^verbatim>\<open>JSON.parse\<close>. An object is the list of its own properties, each key
  once; numbers are relayed and never inspected.
\<close>

datatype json =
    JNull
  | JBool bool
  | JNum int
  | JStr string
  | JArr "json list"
  | JObj "(string \<times> json) list"

text \<open>
  Property access \<^verbatim>\<open>message?.type\<close>, \<^verbatim>\<open>message.topics\<close>, \<^verbatim>\<open>message.topic\<close>: only an
  object parsed from JSON has such a property; \<open>None\<close> is JavaScript's \<^verbatim>\<open>undefined\<close>.
\<close>

fun field :: "json \<Rightarrow> string \<Rightarrow> json option" where
  "field (JObj kv) k = map_of kv k"
| "field _ k = None"

text \<open>\<^verbatim>\<open>Array.isArray(message.topics) ? message.topics : []\<close>\<close>

fun topics_list :: "json \<Rightarrow> json list" where
  "topics_list message =
     (case field message ''topics'' of Some (JArr list) \<Rightarrow> list | _ \<Rightarrow> [])"

subsection \<open>JavaScript sets\<close>

text \<open>
  A \<^verbatim>\<open>Set\<close> keeps its members in insertion order, each once; \<^verbatim>\<open>forEach\<close> visits them
  in that order.
\<close>

definition set_add :: "'a \<Rightarrow> 'a list \<Rightarrow> 'a list" where
  "set_add x xs = (if x \<in> set xs then xs else xs @ [x])"

definition set_delete :: "'a \<Rightarrow> 'a list \<Rightarrow> 'a list" where
  "set_delete x xs = removeAll x xs"

subsection \<open>Connections and the server state\<close>

type_synonym sock = nat

datatype ready_state = CONNECTING | OPEN | CLOSING | CLOSED

text \<open>
  A socket of the \<^verbatim>\<open>ws\<close> library together with the closure of its connection handler.
  \<open>readyState\<close> and \<open>bufferedAmount\<close> are what the handlers read from the transport;
  \<open>sendThrows\<close> and \<open>pingThrows\<close> say whether \<^verbatim>\<open>conn.send\<close> and \<^verbatim>\<open>socket.ping\<close> would
  raise; the transport sets these four. \<open>sent\<close>, \<open>closeCalls\<close>, \<open>pingsSent\<close> and
  \<open>terminateCalls\<close> record what the server asked of the transport: the envelopes handed
  to \<^verbatim>\<open>conn.send\<close> without a raise, and the calls of \<^verbatim>\<open>close()\<close>, \<^verbatim>\<open>ping()\<close> (without a
  raise) and \<^verbatim>\<open>terminate()\<close>.
\<close>

record conn =
  readyState :: ready_state
  bufferedAmount :: nat
  sendThrows :: bool
  pingThrows :: bool
  isAlive :: bool
  subscribedTopics :: "string list"
  sent :: "json list"
  closeCalls :: nat
  pingsSent :: nat
  terminateCalls :: nat

text \<open>
  \<open>topics\<close> is the global \<^verbatim>\<open>Map\<close> from topic name to its \<^verbatim>\<open>Set\<close> of sockets,
  \<open>clients\<close> is \<^verbatim>\<open>wss.clients\<close>, and \<open>nextSock\<close> numbers the socket objects created
  so far: every accepted upgrade makes a new one.
\<close>

record state =
  topics :: "string \<rightharpoonup> sock list"
  conns :: "sock \<Rightarrow> conn"
  clients :: "sock list"
  nextSock :: sock

definition new_conn :: conn where
  "new_conn = \<lparr> readyState = OPEN, bufferedAmount = 0, sendThrows = False,
      pingThrows = False, isAlive = False, subscribedTopics = [], sent = [],
      closeCalls = 0, pingsSent = 0, terminateCalls = 0 \<rparr>"

definition init_state :: state where
  "init_state = \<lparr> topics = Map.empty, conns = (\<lambda>_. new_conn), clients = [], nextSock = 0 \<rparr>"

definition upd_conn :: "sock \<Rightarrow> (conn \<Rightarrow> conn) \<Rightarrow> state \<Rightarrow> state" where
  "upd_conn c f s = s\<lparr> conns := (conns s)(c := f (conns s c)) \<rparr>"

subsection \<open>Admission: the upgrade handler\<close>

text \<open>
  \<open>url_pathname\<close> is \<^verbatim>\<open>new URL(req.url, 'http://x').pathname\<close>, \<open>None\<close> when the URL
  constructor raises; \<open>origin\<close> is \<^verbatim>\<open>req.headers.origin\<close>, \<open>None\<close> when the request has
  no such header.
\<close>

record request =
  url_pathname :: "string option"
  origin :: "string option"

record config =
  WS_PATH :: string
  ALLOWED_ORIGINS :: "string list"

definition default_config :: config where
  "default_config = \<lparr> WS_PATH = ''/ws'',
     ALLOWED_ORIGINS = [''https://collabo-r8vr1547i-collabo-teams-projects.vercel.app'',
                        ''http://localhost:3000''] \<rparr>"

text \<open>
  True when the handler reaches \<^verbatim>\<open>wss.handleUpgrade\<close>, False when it destroys the
  socket. \<^verbatim>\<open>origin && ...\<close> tests the header for truthiness: a string passes when it is
  not empty.
\<close>

definition admit :: "config \<Rightarrow> request \<Rightarrow> bool" where
  "admit cfg req =
     (case url_pathname req of
        None \<Rightarrow> False
      | Some pathname \<Rightarrow>
          if pathname \<noteq> WS_PATH cfg then False
          else if (case origin req of
                     None \<Rightarrow> False
                   | Some hdr \<Rightarrow> hdr \<noteq> [] \<and> hdr \<notin> set (ALLOWED_ORIGINS cfg)) then False
          else True)"

text \<open>The \<^verbatim>\<open>connection\<close> handler: \<^verbatim>\<open>socket.isAlive = true\<close>, a new empty \<^verbatim>\<open>subscribedTopics\<close>.\<close>

definition on_connection :: "sock \<Rightarrow> state \<Rightarrow> state" where
  "on_connection c s = upd_conn c (\<lambda>k. k\<lparr> isAlive := True, subscribedTopics := [] \<rparr>) s"

text \<open>
  An admitted request becomes a new socket, tracked in \<^verbatim>\<open>wss.clients\<close>, and the
  \<^verbatim>\<open>connection\<close> event is emitted for it; a refused one leaves the state as it is.
\<close>

definition on_upgrade :: "config \<Rightarrow> request \<Rightarrow> state \<Rightarrow> state" where
  "on_upgrade cfg req s =
     (if admit cfg req then
        (let c = nextSock s in
         on_connection c
           (s\<lparr> conns := (conns s)(c := new_conn),
               clients := set_add c (clients s),
               nextSock := Suc c \<rparr>))
      else s)"

subsection \<open>Delivery: send\<close>

definition send_conn :: "json \<Rightarrow> conn \<Rightarrow> conn" where
  "send_conn message conn =
     (if readyState conn \<noteq> OPEN then conn\<lparr> closeCalls := Suc (closeCalls conn) \<rparr>
      else if bufferedAmount conn > 1000000 then conn
      else if sendThrows conn then conn\<lparr> closeCalls := Suc (closeCalls conn) \<rparr>
      else conn\<lparr> sent := sent conn @ [message] \<rparr>)"

definition send :: "sock \<Rightarrow> json \<Rightarrow> state \<Rightarrow> state" where
  "send c message s = upd_conn c (send_conn message) s"

subsection \<open>The message handler\<close>

text \<open>One turn of the \<^verbatim>\<open>subscribe\<close> loop.\<close>

fun subscribe_one :: "sock \<Rightarrow> json \<Rightarrow> state \<Rightarrow> state" where
  "subscribe_one c (JStr topicName) s =
     (if topicName = [] then s
      else
        let subscribers = (case topics s topicName of None \<Rightarrow> [] | Some subs \<Rightarrow> subs) in
        upd_conn c (\<lambda>k. k\<lparr> subscribedTopics := set_add topicName (subscribedTopics k) \<rparr>)
          (s\<lparr> topics := (topics s)(topicName \<mapsto> set_add c subscribers) \<rparr>))"
| "subscribe_one c _ s = s"

text \<open>
  One turn of the \<^verbatim>\<open>unsubscribe\<close> loop. The keys of \<^verbatim>\<open>topics\<close> are strings, so
  \<^verbatim>\<open>topics.get\<close> of any other value is \<^verbatim>\<open>undefined\<close>.
\<close>

fun unsubscribe_one :: "sock \<Rightarrow> json \<Rightarrow> state \<Rightarrow> state" where
  "unsubscribe_one c (JStr topicName) s =
     (case topics s topicName of
        None \<Rightarrow> s
      | Some subscribers \<Rightarrow>
          let subscribers' = set_delete c subscribers;
              s1 = upd_conn c
                     (\<lambda>k. k\<lparr> subscribedTopics := set_delete topicName (subscribedTopics k) \<rparr>) s
          in if subscribers' = [] then s1\<lparr> topics := (topics s)(topicName := None) \<rparr>
             else s1\<lparr> topics := (topics s)(topicName \<mapsto> subscribers') \<rparr>)"
| "unsubscribe_one c _ s = s"

definition publish :: "sock \<Rightarrow> json \<Rightarrow> state \<Rightarrow> state" where
  "publish c message s =
     (case field message ''topic'' of
        Some (JStr t) \<Rightarrow>
          if t \<noteq> [] then
            (case topics s t of
               Some receivers \<Rightarrow>
                 fold (\<lambda>receiver s'. if receiver \<noteq> c then send receiver message s' else s')
                      receivers s
             | None \<Rightarrow> s)
          else s
      | _ \<Rightarrow> s)"

text \<open>
  The handler has no \<^verbatim>\<open>try\<close> around its \<^verbatim>\<open>switch\<close> and the process has no handler for
  uncaught exceptions: what raises there ends the process.
\<close>

datatype error = TypeError

text \<open>
  The template literal \<^verbatim>\<open>${message?.type}\<close> of the \<^verbatim>\<open>default\<close> case converts the value
  to a string. For an object the conversion calls its \<^verbatim>\<open>toString\<close>, then its
  \<^verbatim>\<open>valueOf\<close>: an object parsed from JSON with an own property \<^verbatim>\<open>toString\<close> has no
  callable \<^verbatim>\<open>toString\<close>, and its \<^verbatim>\<open>valueOf\<close> is not callable or returns the object, so
  the conversion raises a \<^verbatim>\<open>TypeError\<close>; without that property the object converts to
  \<^verbatim>\<open>[object Object]\<close>. An array joins the conversions of its elements, \<^verbatim>\<open>null\<close>
  as the empty string. The other values convert without a raise. The depth of nesting
  at which the engine runs out of stack is not part of the model.
\<close>

fun to_string_throws :: "json \<Rightarrow> bool" where
  "to_string_throws (JObj kv) = (map_of kv ''toString'' \<noteq> None)"
| "to_string_throws (JArr xs) = (\<exists>x \<in> set xs. to_string_throws x)"
| "to_string_throws _ = False"

text \<open>
  The \<^verbatim>\<open>default\<close> case: \<^verbatim>\<open>console.log(`Unhandled message type: ${message?.type}`)\<close>.
\<close>

definition unhandled :: "json \<Rightarrow> state \<Rightarrow> error + state" where
  "unhandled message s =
     (case field message ''type'' of
        None \<Rightarrow> Inr s
      | Some ty \<Rightarrow> if to_string_throws ty then Inl TypeError else Inr s)"

text \<open>
  \<open>data\<close> is the outcome of \<^verbatim>\<open>JSON.parse(data.toString())\<close>: \<open>None\<close> when it raises.
  The \<^verbatim>\<open>switch\<close> compares \<^verbatim>\<open>message?.type\<close> with \<^verbatim>\<open>===\<close>, so only a string matches a case.
\<close>

definition on_message :: "sock \<Rightarrow> json option \<Rightarrow> state \<Rightarrow> error + state" where
  "on_message c data s =
     (case data of
        None \<Rightarrow> Inr s
      | Some message \<Rightarrow>
          (case field message ''type'' of
             Some (JStr ty) \<Rightarrow>
               if ty = ''subscribe'' then
                 Inr (fold (subscribe_one c) (take 64 (topics_list message)) s)
               else if ty = ''publish'' then Inr (publish c message s)
               else if ty = ''unsubscribe'' then
                 Inr (fold (unsubscribe_one c) (topics_list message) s)
               else if ty = ''ping'' then Inr (send c (JObj [(''type'', JStr ''pong'')]) s)
               else unhandled message s
           | _ \<Rightarrow> unhandled message s))"

subsection \<open>The pong and close handlers\<close>

definition on_pong :: "sock \<Rightarrow> state \<Rightarrow> state" where
  "on_pong c s = upd_conn c (\<lambda>k. k\<lparr> isAlive := True \<rparr>) s"

text \<open>One turn of \<^verbatim>\<open>subscribedTopics.forEach\<close> in the \<^verbatim>\<open>close\<close> handler.\<close>

definition close_one :: "sock \<Rightarrow> string \<Rightarrow> state \<Rightarrow> state" where
  "close_one c topicName s =
     (case topics s topicName of
        None \<Rightarrow> s
      | Some subscribers \<Rightarrow>
          let subscribers' = set_delete c subscribers
          in if subscribers' = [] then s\<lparr> topics := (topics s)(topicName := None) \<rparr>
             else s\<lparr> topics := (topics s)(topicName \<mapsto> subscribers') \<rparr>)"

definition on_close :: "sock \<Rightarrow> state \<Rightarrow> state" where
  "on_close c s =
     upd_conn c (\<lambda>k. k\<lparr> subscribedTopics := [] \<rparr>)
       (fold (close_one c) (subscribedTopics (conns s c)) s)"

subsection \<open>Heartbeat\<close>

definition heartbeat_conn :: "conn \<Rightarrow> conn" where
  "heartbeat_conn socket =
     (if isAlive socket = False then socket\<lparr> terminateCalls := Suc (terminateCalls socket) \<rparr>
      else
        let socket' = socket\<lparr> isAlive := False \<rparr> in
        if pingThrows socket' then socket'\<lparr> terminateCalls := Suc (terminateCalls socket') \<rparr>
        else socket'\<lparr> pingsSent := Suc (pingsSent socket') \<rparr>)"

definition on_tick :: "state \<Rightarrow> state" where
  "on_tick s = fold (\<lambda>c. upd_conn c heartbeat_conn) (clients s) s"

subsection \<open>Events\<close>

text \<open>
  What the event loop hands to the server: an upgrade request, a message, a pong or the
  close of a socket, a tick of the heartbeat interval, and a change of what the transport
  of a socket reports. With client tracking the library takes a socket out of
  \<^verbatim>\<open>wss.clients\<close> when it closes. Events of a socket come only after the socket exists.
\<close>

datatype event =
    Upgrade request
  | Message sock "json option"
  | Pong sock
  | Close sock
  | Tick
  | Transport sock ready_state nat bool bool

fun step :: "config \<Rightarrow> event \<Rightarrow> state \<Rightarrow> error + state" where
  "step cfg (Upgrade req) s = Inr (on_upgrade cfg req s)"
| "step cfg (Message c data) s = (if c < nextSock s then on_message c data s else Inr s)"
| "step cfg (Pong c) s = Inr (if c < nextSock s then on_pong c s else s)"
| "step cfg (Close c) s =
     Inr (if c < nextSock s then (on_close c s)\<lparr> clients := set_delete c (clients s) \<rparr> else s)"
| "step cfg Tick s = Inr (on_tick s)"
| "step cfg (Transport c rs ba st pt) s =
     Inr (if c < nextSock s then
            upd_conn c (\<lambda>k. k\<lparr> readyState := rs, bufferedAmount := ba,
                               sendThrows := st, pingThrows := pt \<rparr>) s
          else s)"

text \<open>
  The state the server is in after the events, or in which an uncaught exception ended
  the process: the events after it are not handled.
\<close>

fun run :: "config \<Rightarrow> event list \<Rightarrow> state \<Rightarrow> state" where
  "run cfg [] s = s"
| "run cfg (e # evs) s =
     (case step cfg e s of
        Inl err \<Rightarrow> s
      | Inr s' \<Rightarrow> run cfg evs s')"

section \<open>Notions used by the properties\<close>

text \<open>Two states with the same registry, tracked sockets and subscribed sets.\<close>

definition same_registry :: "state \<Rightarrow> state \<Rightarrow> bool" where
  "same_registry s s' \<longleftrightarrow>
     topics s' = topics s \<and> clients s' = clients s \<and> nextSock s' = nextSock s \<and>
     (\<forall>c. subscribedTopics (conns s' c) = subscribedTopics (conns s c))"

text \<open>Invariant 1 of the data model: the registry holds no topic with an empty set.\<close>

definition inv_nonempty :: "state \<Rightarrow> bool" where
  "inv_nonempty s \<longleftrightarrow> (\<forall>t. topics s t \<noteq> Some [])"

text \<open>What is left of a registry entry once socket \<open>c\<close> is deleted from it.\<close>

definition without :: "sock \<Rightarrow> sock list option \<Rightarrow> sock list option" where
  "without c entry =
     (case entry of
        None \<Rightarrow> None
      | Some subs \<Rightarrow> if set_delete c subs = [] then None else Some (set_delete c subs))"

text \<open>
  Invariant 2 of the data model: a socket is in the subscriber set of a topic exactly
  when the topic is in the socket's own subscribed set. Sockets that do not exist yet
  have no subscription.
\<close>

definition member_of :: "sock \<Rightarrow> string \<Rightarrow> state \<Rightarrow> bool" where
  "member_of c t s = (case topics s t of None \<Rightarrow> False | Some subs \<Rightarrow> c \<in> set subs)"

definition inv_agree :: "state \<Rightarrow> bool" where
  "inv_agree s \<longleftrightarrow>
     (\<forall>c t. member_of c t s \<longleftrightarrow> t \<in> set (subscribedTopics (conns s c)))"

definition inv_fresh :: "state \<Rightarrow> bool" where
  "inv_fresh s \<longleftrightarrow> (\<forall>c. nextSock s \<le> c \<longrightarrow> subscribedTopics (conns s c) = [])"

definition consistent :: "state \<Rightarrow> bool" where
  "consistent s \<longleftrightarrow> inv_agree s \<and> inv_fresh s"

text \<open>Socket \<open>c\<close> is subscribed to \<open>t\<close>, in the registry and in its own set.\<close>

definition subscribed :: "sock \<Rightarrow> string \<Rightarrow> state \<Rightarrow> bool" where
  "subscribed c t s \<longleftrightarrow> member_of c t s \<and> t \<in> set (subscribedTopics (conns s c))"

text \<open>
  Invariant 3 of the data model: a subscriber set holds a socket once. The same for
  \<^verbatim>\<open>wss.clients\<close>, whose members are sockets that exist.
\<close>

definition inv_distinct :: "state \<Rightarrow> bool" where
  "inv_distinct s \<longleftrightarrow> (\<forall>t subs. topics s t = Some subs \<longrightarrow> distinct subs)"

definition inv_tracked :: "state \<Rightarrow> bool" where
  "inv_tracked s \<longleftrightarrow> distinct (clients s) \<and> (\<forall>c \<in> set (clients s). c < nextSock s)"

text \<open>A socket whose liveness flag is down: its last probe is not answered yet.\<close>

definition suspected :: "sock \<Rightarrow> state \<Rightarrow> bool" where
  "suspected c s \<longleftrightarrow> c < nextSock s \<and> \<not> isAlive (conns s c)"

subsection \<open>Example envelopes, traces and states\<close>

definition upgrade_ok :: event where
  "upgrade_ok = Upgrade \<lparr> url_pathname = Some ''/ws'', origin = None \<rparr>"

definition sub_env :: "json list \<Rightarrow> json" where
  "sub_env xs = JObj [(''type'', JStr ''subscribe''), (''topics'', JArr xs)]"

definition unsub_env :: "json list \<Rightarrow> json" where
  "unsub_env xs = JObj [(''type'', JStr ''unsubscribe''), (''topics'', JArr xs)]"

definition pub_env :: "string \<Rightarrow> json" where
  "pub_env t = JObj [(''type'', JStr ''publish''), (''topic'', JStr t), (''payload'', JNum 1)]"

text \<open>An envelope whose type is an object with an own property \<^verbatim>\<open>toString\<close>.\<close>

definition unprintable_env :: json where
  "unprintable_env = JObj [(''type'', JObj [(''toString'', JNum 1)])]"

text \<open>
  Three sockets are admitted; socket 0 subscribes to \<open>x\<close> and \<open>y\<close>, socket 1 to \<open>x\<close>,
  socket 2 to nothing.
\<close>

definition two_rooms :: "event list" where
  "two_rooms = [upgrade_ok, upgrade_ok, upgrade_ok,
                Message 0 (Some (sub_env [JStr ''x'', JStr ''y''])),
                Message 1 (Some (sub_env [JStr ''x'']))]"

definition rooms :: state where
  "rooms = run default_config two_rooms init_state"

text \<open>The same, with the transport of socket 1 closing and its ping raising.\<close>

definition rooms_ping_fails :: state where
  "rooms_ping_fails = run default_config (two_rooms @ [Transport 1 CLOSING 0 False True]) init_state"

text \<open>The same as \<open>rooms\<close>, after one heartbeat tick.\<close>

definition rooms_ticked :: state where
  "rooms_ticked = run default_config (two_rooms @ [Tick]) init_state"

text \<open>One socket whose transport is open with more than 1,000,000 bytes buffered.\<close>

definition backlogged :: state where
  "backlogged = run default_config [upgrade_ok, Transport 0 OPEN 1000001 False False] init_state"

section \<open>Basic facts\<close>

lemma set_set_add [simp]: "set (set_add x xs) = insert x (set xs)"
  by (auto simp: set_add_def)

lemma set_set_delete [simp]: "set (set_delete x xs) = set xs - {x}"
  by (auto simp: set_delete_def)

lemma set_add_not_Nil [simp]: "set_add x xs \<noteq> []"
  by (auto simp: set_add_def)

lemma distinct_set_add: "distinct xs \<Longrightarrow> distinct (set_add x xs)"
  by (simp add: set_add_def)

lemma distinct_set_delete: "distinct xs \<Longrightarrow> distinct (set_delete x xs)"
  by (simp add: set_delete_def distinct_removeAll)

lemma set_delete_twice [simp]: "set_delete x (set_delete x xs) = set_delete x xs"
  by (simp add: set_delete_def)

lemma set_delete_Nil_iff: "set_delete x xs = [] \<longleftrightarrow> set xs \<subseteq> {x}"
  unfolding set_delete_def by (induction xs) auto

lemma upd_conn_sel [simp]:
  "topics (upd_conn c f s) = topics s"
  "conns (upd_conn c f s) = (conns s)(c := f (conns s c))"
  "clients (upd_conn c f s) = clients s"
  "nextSock (upd_conn c f s) = nextSock s"
  by (simp_all add: upd_conn_def)

lemma fold_preserves:
  assumes "\<And>x s. P s \<Longrightarrow> P (f x s)" and "P s"
  shows "P (fold f xs s)"
  using assms(2) by (induction xs arbitrary: s) (simp_all add: assms(1))

lemma set_add_member: "x \<in> set xs \<Longrightarrow> set_add x xs = xs"
  by (simp add: set_add_def)

lemma upd_conn_id: "f (conns s c) = conns s c \<Longrightarrow> upd_conn c f s = s"
  by (simp add: upd_conn_def)

lemma fold_keeps:
  assumes "\<And>x s. g (f x s) = g s"
  shows "g (fold f xs s) = g s"
  by (induction xs arbitrary: s) (simp_all add: assms)

lemma fold_upd_conn:
  "distinct xs \<Longrightarrow>
   fold (\<lambda>x. upd_conn x f) xs s =
     s\<lparr> conns := (\<lambda>r. if r \<in> set xs then f (conns s r) else conns s r) \<rparr>"
proof (induction xs arbitrary: s)
  case Nil
  show ?case by simp
next
  case (Cons x xs)
  then have "fold (\<lambda>x. upd_conn x f) xs (upd_conn x f s) =
     (upd_conn x f s)\<lparr> conns := (\<lambda>r. if r \<in> set xs then f (conns (upd_conn x f s) r)
                                      else conns (upd_conn x f s) r) \<rparr>"
    by simp
  also have "\<dots> = s\<lparr> conns := (\<lambda>r. if r \<in> set (x # xs) then f (conns s r) else conns s r) \<rparr>"
    using Cons.prems by (auto simp: upd_conn_def fun_eq_iff)
  finally show ?case by simp
qed

lemma run_invariant:
  assumes "\<And>e. e \<in> set evs \<Longrightarrow> Q e" and "P s"
    and "\<And>e s s'. Q e \<Longrightarrow> P s \<Longrightarrow> step cfg e s = Inr s' \<Longrightarrow> P s'"
  shows "P (run cfg evs s)"
  using assms(1,2)
proof (induction evs arbitrary: s)
  case Nil
  then show ?case by simp
next
  case (Cons e evs)
  show ?case
  proof (cases "step cfg e s")
    case (Inl err)
    then show ?thesis using Cons.prems(2) by simp
  next
    case (Inr s')
    have "P s'" using assms(3) [OF _ Cons.prems(2) Inr] Cons.prems(1) by simp
    then have "P (run cfg evs s')" using Cons.IH Cons.prems(1) by simp
    then show ?thesis using Inr by simp
  qed
qed

lemma run_preserves:
  assumes "P s" and "\<And>e s s'. P s \<Longrightarrow> step cfg e s = Inr s' \<Longrightarrow> P s'"
  shows "P (run cfg evs s)"
  by (rule run_invariant [where Q = "\<lambda>e. True" and P = P]) (simp_all add: assms)

lemma unhandled_Inr: "unhandled message s = Inr s' \<Longrightarrow> s' = s"
  by (auto simp: unhandled_def split: option.splits if_splits)

lemma on_message_Inr:
  assumes "on_message c d s = Inr s'"
  shows "s' = s \<or> (\<exists>xs. s' = fold (subscribe_one c) xs s) \<or>
     (\<exists>xs. s' = fold (unsubscribe_one c) xs s) \<or> (\<exists>m. s' = publish c m s) \<or>
     (\<exists>m. s' = send c m s)"
  using assms
  by (auto simp: on_message_def dest: unhandled_Inr split: option.splits json.splits if_splits)

subsection \<open>Handlers that leave the registry alone\<close>

lemma same_registry_refl [simp]: "same_registry s s"
  by (simp add: same_registry_def)

lemma same_registry_trans: "same_registry s s1 \<Longrightarrow> same_registry s1 s2 \<Longrightarrow> same_registry s s2"
  by (simp add: same_registry_def)

lemma same_registry_upd_conn:
  "(\<And>k. subscribedTopics (f k) = subscribedTopics k) \<Longrightarrow> same_registry s (upd_conn c f s)"
  by (simp add: same_registry_def)

lemma same_registry_fold:
  assumes "\<And>x s. same_registry s (f x s)"
  shows "same_registry s (fold f xs s)"
proof (induction xs arbitrary: s)
  case Nil
  show ?case by simp
next
  case (Cons x xs)
  have "same_registry s (f x s)" by (rule assms)
  moreover have "same_registry (f x s) (fold f xs (f x s))" by (rule Cons.IH)
  ultimately show ?case by (simp add: same_registry_trans [of s "f x s"])
qed

lemma subscribedTopics_send_conn [simp]:
  "subscribedTopics (send_conn m k) = subscribedTopics k"
  by (simp add: send_conn_def)

lemma subscribedTopics_heartbeat_conn [simp]:
  "subscribedTopics (heartbeat_conn k) = subscribedTopics k"
  by (simp add: heartbeat_conn_def Let_def)

lemma same_registry_send: "same_registry s (send c m s)"
  by (simp add: send_def same_registry_upd_conn)

lemma same_registry_publish: "same_registry s (publish c m s)"
  by (auto simp: publish_def same_registry_send
           intro!: same_registry_fold split: option.splits json.splits)

lemma same_registry_on_tick: "same_registry s (on_tick s)"
  unfolding on_tick_def
  by (rule same_registry_fold) (simp add: same_registry_upd_conn)

lemma same_registry_on_pong: "same_registry s (on_pong c s)"
  by (simp add: on_pong_def same_registry_upd_conn)

lemma clients_on_tick [simp]: "clients (on_tick s) = clients s"
  using same_registry_on_tick [of s] by (simp add: same_registry_def)

lemma nextSock_on_tick [simp]: "nextSock (on_tick s) = nextSock s"
  using same_registry_on_tick [of s] by (simp add: same_registry_def)

subsection \<open>The example states\<close>

lemmas run_simps = upgrade_ok_def sub_env_def unsub_env_def init_state_def
  on_upgrade_def admit_def default_config_def on_connection_def upd_conn_def new_conn_def
  set_add_def set_delete_def on_message_def on_close_def close_one_def Let_def

lemma rooms_conns:
  "conns rooms 0 = new_conn\<lparr> isAlive := True, subscribedTopics := [''x'', ''y''] \<rparr>"
  "conns rooms 1 = new_conn\<lparr> isAlive := True, subscribedTopics := [''x''] \<rparr>"
  "conns rooms 2 = new_conn\<lparr> isAlive := True \<rparr>"
  by (simp_all add: rooms_def two_rooms_def run_simps)

lemma rooms_clients: "clients rooms = [0, 1, 2]"
  by (simp add: rooms_def two_rooms_def run_simps)

lemma rooms_nextSock: "nextSock rooms = 3"
  by (simp add: rooms_def two_rooms_def run_simps)

lemma rooms_topics:
  "topics rooms ''x'' = Some [0, 1]"
  "topics rooms ''y'' = Some [0]"
  "topics rooms ''nowhere'' = None"
  by (simp_all add: rooms_def two_rooms_def run_simps)

lemma rooms_ping_fails_1:
  "1 \<in> set (clients rooms_ping_fails) \<and> isAlive (conns rooms_ping_fails 1) \<and>
   pingThrows (conns rooms_ping_fails 1) \<and> terminateCalls (conns rooms_ping_fails 1) = 0 \<and>
   pingsSent (conns rooms_ping_fails 1) = 0"
  by (simp add: rooms_ping_fails_def two_rooms_def run_simps)

lemma rooms_ticked_eq: "rooms_ticked = on_tick rooms"
  by (simp add: rooms_ticked_def rooms_def two_rooms_def run_simps)

lemma rooms_subscribed: "subscribed 1 ''x'' rooms"
  using rooms_topics rooms_conns by (simp add: subscribed_def member_of_def)

section \<open>The registry holds no empty topic\<close>

lemma inv_nonempty_same: "same_registry s s' \<Longrightarrow> inv_nonempty s \<Longrightarrow> inv_nonempty s'"
  by (simp add: same_registry_def inv_nonempty_def)

lemma inv_nonempty_subscribe_one: "inv_nonempty s \<Longrightarrow> inv_nonempty (subscribe_one c j s)"
  by (cases j) (simp_all add: inv_nonempty_def Let_def)

lemma inv_nonempty_unsubscribe_one: "inv_nonempty s \<Longrightarrow> inv_nonempty (unsubscribe_one c j s)"
  by (cases j) (simp_all add: inv_nonempty_def Let_def split: option.splits)

lemma inv_nonempty_close_one: "inv_nonempty s \<Longrightarrow> inv_nonempty (close_one c t s)"
  by (simp add: close_one_def inv_nonempty_def Let_def split: option.splits)

lemma inv_nonempty_on_close: "inv_nonempty s \<Longrightarrow> inv_nonempty (on_close c s)"
proof -
  assume "inv_nonempty s"
  then have "inv_nonempty (fold (close_one c) (subscribedTopics (conns s c)) s)"
    by (rule fold_preserves [rotated]) (rule inv_nonempty_close_one)
  then show ?thesis by (simp add: on_close_def inv_nonempty_def)
qed

lemma inv_nonempty_on_message:
  assumes "inv_nonempty s" and "on_message c d s = Inr s'"
  shows "inv_nonempty s'"
proof -
  have sub: "inv_nonempty (fold (subscribe_one c) xs s)" for xs
    using assms(1) by (rule fold_preserves [rotated]) (rule inv_nonempty_subscribe_one)
  have unsub: "inv_nonempty (fold (unsubscribe_one c) xs s)" for xs
    using assms(1) by (rule fold_preserves [rotated]) (rule inv_nonempty_unsubscribe_one)
  have pub: "inv_nonempty (publish c m s)" for m
    using same_registry_publish assms(1) by (rule inv_nonempty_same)
  have png: "inv_nonempty (send c m s)" for m
    using same_registry_send assms(1) by (rule inv_nonempty_same)
  show ?thesis
    using on_message_Inr [OF assms(2)] assms(1) sub unsub pub png by auto
qed

lemma topics_on_upgrade [simp]: "topics (on_upgrade cfg req s) = topics s"
  by (simp add: on_upgrade_def on_connection_def Let_def)

lemma inv_nonempty_step:
  assumes "inv_nonempty s" and "step cfg e s = Inr s'"
  shows "inv_nonempty s'"
proof (cases e)
  case (Upgrade req)
  then show ?thesis using assms by (auto simp: inv_nonempty_def)
next
  case (Message c d)
  then show ?thesis using assms by (auto simp: inv_nonempty_on_message split: if_splits)
next
  case (Pong c)
  then show ?thesis using assms by (auto simp: on_pong_def inv_nonempty_def split: if_splits)
next
  case (Close c)
  have "inv_nonempty (on_close c s)" using assms(1) by (rule inv_nonempty_on_close)
  then show ?thesis using Close assms by (auto simp: inv_nonempty_def split: if_splits)
next
  case Tick
  then show ?thesis using assms inv_nonempty_same [OF same_registry_on_tick] by auto
next
  case (Transport c rs ba st pt)
  then show ?thesis using assms by (auto simp: inv_nonempty_def split: if_splits)
qed

lemma inv_nonempty_run: "inv_nonempty s \<Longrightarrow> inv_nonempty (run cfg evs s)"
  by (rule run_preserves [where P = inv_nonempty]) (simp_all add: inv_nonempty_step)

lemma inv_nonempty_init: "inv_nonempty init_state"
  by (simp add: inv_nonempty_def init_state_def)

lemma without_twice [simp]: "without c (without c entry) = without c entry"
  by (simp add: without_def split: option.splits)

lemma topics_close_one: "topics (close_one c x s) = (topics s)(x := without c (topics s x))"
  by (auto simp: close_one_def without_def Let_def split: option.splits)

lemma rest_close_one [simp]:
  "conns (close_one c x s) = conns s"
  "clients (close_one c x s) = clients s"
  "nextSock (close_one c x s) = nextSock s"
  by (simp_all add: close_one_def Let_def split: option.splits)

lemma rest_close_fold [simp]:
  "conns (fold (close_one c) ts s) = conns s"
  "clients (fold (close_one c) ts s) = clients s"
  "nextSock (fold (close_one c) ts s) = nextSock s"
  by (induction ts arbitrary: s) simp_all

lemma topics_close_fold:
  "topics (fold (close_one c) ts s) t =
     (if t \<in> set ts then without c (topics s t) else topics s t)"
  by (induction ts arbitrary: s) (simp_all add: topics_close_one)

lemma topics_on_close:
  "topics (on_close c s) t =
     (if t \<in> set (subscribedTopics (conns s c)) then without c (topics s t) else topics s t)"
  by (simp add: on_close_def topics_close_fold)

text \<open>
  Claim C1. After any sequence of events from the empty registry (subscribe, unsubscribe
  and close among them), a topic that is present in the registry has a subscriber set
  that is not empty; and when a connection closes, a topic of its subscribed set whose
  subscriber set would become empty is deleted from the registry.
\<close>

theorem registry_topics_nonempty:
  "(topics (run cfg evs init_state) t = Some subs \<longrightarrow> subs \<noteq> []) \<and>
   (topics (run cfg evs init_state) t = Some subs \<and>
    t \<in> set (subscribedTopics (conns (run cfg evs init_state) c)) \<and> set_delete c subs = []
      \<longrightarrow> topics (on_close c (run cfg evs init_state)) t = None)"
proof -
  have "inv_nonempty (run cfg evs init_state)"
    using inv_nonempty_init by (rule inv_nonempty_run)
  then have "topics (run cfg evs init_state) t \<noteq> Some []"
    by (simp add: inv_nonempty_def)
  then show ?thesis
    by (auto simp: topics_on_close without_def)
qed

theorem registry_topics_nonempty_witness:
  "topics rooms ''x'' = Some [0, 1] \<and> [0, 1::nat] \<noteq> [] \<and>
   topics rooms ''y'' = Some [0] \<and>
   ''y'' \<in> set (subscribedTopics (conns rooms 0)) \<and>
   set_delete 0 [0::nat] = [] \<and>
   topics (on_close 0 rooms) ''y'' = None"
  using registry_topics_nonempty [of default_config two_rooms "''x''" "[0, 1]" 0, folded rooms_def]
    registry_topics_nonempty [of default_config two_rooms "''y''" "[0]" 0, folded rooms_def]
    rooms_topics rooms_conns
  by (simp add: set_delete_def)

section \<open>The registry and the subscribed sets agree\<close>

lemma consistent_same: "same_registry s s' \<Longrightarrow> consistent s \<Longrightarrow> consistent s'"
  by (simp add: same_registry_def consistent_def inv_agree_def inv_fresh_def member_of_def)

lemma member_of_subscribe_one:
  "t \<noteq> [] \<Longrightarrow>
   member_of c' t' (subscribe_one c (JStr t) s) \<longleftrightarrow> (c' = c \<and> t' = t) \<or> member_of c' t' s"
  by (auto simp: member_of_def Let_def split: option.splits)

lemma subscribed_subscribe_one:
  "t \<noteq> [] \<Longrightarrow>
   t' \<in> set (subscribedTopics (conns (subscribe_one c (JStr t) s) c')) \<longleftrightarrow>
     (c' = c \<and> t' = t) \<or> t' \<in> set (subscribedTopics (conns s c'))"
  by (auto simp: Let_def)

lemma consistent_subscribe_one:
  assumes "c < nextSock s" and "consistent s"
  shows "consistent (subscribe_one c j s)"
proof (cases "\<exists>t. j = JStr t \<and> t \<noteq> []")
  case True
  then obtain t where j: "j = JStr t" and t: "t \<noteq> []" by blast
  have "inv_agree (subscribe_one c (JStr t) s)"
    using assms(2) unfolding consistent_def inv_agree_def
    by (simp only: member_of_subscribe_one [OF t] subscribed_subscribe_one [OF t]) blast
  moreover have "inv_fresh (subscribe_one c (JStr t) s)"
    using assms t unfolding consistent_def inv_fresh_def
    by (auto simp: Let_def)
  ultimately show ?thesis by (simp add: consistent_def j)
next
  case False
  then have "subscribe_one c j s = s" by (cases j) auto
  then show ?thesis using assms(2) by simp
qed

lemma nextSock_subscribe_one [simp]: "nextSock (subscribe_one c j s) = nextSock s"
  by (cases j) (simp_all add: Let_def)

lemma consistent_unsubscribe_one:
  "c < nextSock s \<Longrightarrow> consistent s \<Longrightarrow> consistent (unsubscribe_one c j s)"
  by (cases j)
     (auto simp: consistent_def inv_agree_def inv_fresh_def member_of_def Let_def
        set_delete_Nil_iff split: option.splits)

lemma nextSock_unsubscribe_one [simp]: "nextSock (unsubscribe_one c j s) = nextSock s"
  by (cases j) (simp_all add: Let_def split: option.splits)

lemma consistent_subscribe_fold:
  "c < nextSock s \<and> consistent s \<Longrightarrow>
   c < nextSock (fold (subscribe_one c) xs s) \<and> consistent (fold (subscribe_one c) xs s)"
  by (rule fold_preserves) (simp add: consistent_subscribe_one)

lemma consistent_unsubscribe_fold:
  "c < nextSock s \<and> consistent s \<Longrightarrow>
   c < nextSock (fold (unsubscribe_one c) xs s) \<and> consistent (fold (unsubscribe_one c) xs s)"
  by (rule fold_preserves) (simp add: consistent_unsubscribe_one)

lemma consistent_on_message:
  assumes "c < nextSock s" and "consistent s" and "on_message c d s = Inr s'"
  shows "consistent s'"
proof -
  have sub: "consistent (fold (subscribe_one c) xs s)" for xs
    using consistent_subscribe_fold [of c s xs] assms by simp
  have unsub: "consistent (fold (unsubscribe_one c) xs s)" for xs
    using consistent_unsubscribe_fold [of c s xs] assms by simp
  have pub: "consistent (publish c m s)" for m
    using same_registry_publish assms(2) by (rule consistent_same)
  have png: "consistent (send c m s)" for m
    using same_registry_send assms(2) by (rule consistent_same)
  show ?thesis
    using on_message_Inr [OF assms(3)] assms(2) sub unsub pub png by auto
qed

lemma member_of_without:
  "(case without c entry of None \<Rightarrow> False | Some subs \<Rightarrow> c' \<in> set subs) \<longleftrightarrow>
   c' \<noteq> c \<and> (case entry of None \<Rightarrow> False | Some subs \<Rightarrow> c' \<in> set subs)"
  by (auto simp: without_def set_delete_Nil_iff split: option.splits)

lemma member_of_on_close:
  assumes "inv_agree s"
  shows "member_of c' t (on_close c s) \<longleftrightarrow> c' \<noteq> c \<and> member_of c' t s"
proof (cases "t \<in> set (subscribedTopics (conns s c))")
  case True
  then show ?thesis
    by (simp add: member_of_def topics_on_close member_of_without)
next
  case False
  with assms have "\<not> member_of c t s" by (simp add: inv_agree_def)
  with False show ?thesis
    by (auto simp: member_of_def topics_on_close)
qed

lemma conns_on_close:
  "conns (on_close c s) = (conns s)(c := (conns s c)\<lparr> subscribedTopics := [] \<rparr>)"
  by (simp add: on_close_def)

lemma nextSock_on_close [simp]: "nextSock (on_close c s) = nextSock s"
  by (simp add: on_close_def)

lemma consistent_on_close: "consistent s \<Longrightarrow> consistent (on_close c s)"
  unfolding consistent_def
proof (intro conjI)
  assume a: "inv_agree s \<and> inv_fresh s"
  then have agree: "inv_agree s" by simp
  show "inv_agree (on_close c s)"
    unfolding inv_agree_def
  proof (intro allI)
    fix c' t
    show "member_of c' t (on_close c s) \<longleftrightarrow> t \<in> set (subscribedTopics (conns (on_close c s) c'))"
      using agree by (simp add: member_of_on_close [OF agree] conns_on_close inv_agree_def)
  qed
  show "inv_fresh (on_close c s)"
    using a by (simp add: inv_fresh_def conns_on_close)
qed

lemma consistent_on_upgrade: "consistent s \<Longrightarrow> consistent (on_upgrade cfg req s)"
  by (auto simp: on_upgrade_def on_connection_def consistent_def inv_agree_def inv_fresh_def
        member_of_def Let_def upd_conn_def)

lemma consistent_step:
  assumes "consistent s" and "step cfg e s = Inr s'"
  shows "consistent s'"
proof (cases e)
  case (Upgrade req)
  then show ?thesis using assms by (auto simp: consistent_on_upgrade)
next
  case (Message c d)
  then show ?thesis using assms by (auto simp: consistent_on_message split: if_splits)
next
  case (Pong c)
  then show ?thesis using assms consistent_same [OF same_registry_on_pong]
    by (auto split: if_splits)
next
  case (Close c)
  have "consistent (on_close c s)" using assms(1) by (rule consistent_on_close)
  then show ?thesis using Close assms
    by (auto simp: consistent_def inv_agree_def inv_fresh_def member_of_def split: if_splits)
next
  case Tick
  then show ?thesis using assms consistent_same [OF same_registry_on_tick] by auto
next
  case (Transport c rs ba st pt)
  then show ?thesis using assms
    by (auto simp: consistent_def inv_agree_def inv_fresh_def member_of_def split: if_splits)
qed

lemma consistent_run: "consistent s \<Longrightarrow> consistent (run cfg evs s)"
  by (rule run_preserves [where P = consistent]) (simp_all add: consistent_step)

lemma consistent_init: "consistent init_state"
  by (simp add: consistent_def inv_agree_def inv_fresh_def member_of_def init_state_def new_conn_def)

text \<open>
  Claim C2. After any sequence of events (subscribe, unsubscribe, publish, ping and close
  among them), for every socket \<open>c\<close> and topic \<open>t\<close>: \<open>c\<close> is in the registry's
  subscriber set of \<open>t\<close> if and only if \<open>t\<close> is in the subscribed set of \<open>c\<close>.
\<close>

theorem registry_agrees_with_subscribedTopics:
  "(\<exists>subs. topics (run cfg evs init_state) t = Some subs \<and> c \<in> set subs)
     \<longleftrightarrow> t \<in> set (subscribedTopics (conns (run cfg evs init_state) c))"
proof -
  have "consistent (run cfg evs init_state)"
    using consistent_init by (rule consistent_run)
  then have "member_of c t (run cfg evs init_state)
     \<longleftrightarrow> t \<in> set (subscribedTopics (conns (run cfg evs init_state) c))"
    by (simp add: consistent_def inv_agree_def)
  then show ?thesis by (simp add: member_of_def split: option.splits)
qed

theorem registry_agrees_with_subscribedTopics_witness:
  "(\<exists>subs. topics rooms ''x'' = Some subs \<and> 1 \<in> set subs) \<and>
   ''x'' \<in> set (subscribedTopics (conns rooms 1)) \<and>
   \<not> (\<exists>subs. topics rooms ''y'' = Some subs \<and> 1 \<in> set subs) \<and>
   ''y'' \<notin> set (subscribedTopics (conns rooms 1))"
  using registry_agrees_with_subscribedTopics [of default_config two_rooms "''x''" 1, folded rooms_def]
    registry_agrees_with_subscribedTopics [of default_config two_rooms "''y''" 1, folded rooms_def]
    rooms_conns
  by simp

section \<open>The cap on the topics of one message\<close>

text \<open>A subscribe envelope is applied as its first 64 entries are.\<close>

lemma subscribe_cap:
  "on_message c (Some (sub_env xs)) s = on_message c (Some (sub_env (take 64 xs))) s"
  by (simp add: on_message_def sub_env_def)

text \<open>
  Claim C3. The claim asks that entries after the 64th of an unsubscribe envelope change
  nothing. The unsubscribe loop runs over the whole list: with socket 0 subscribed to
  \<open>z\<close>, an unsubscribe envelope whose 65th entry is \<open>z\<close> removes the subscription and
  deletes the topic.
\<close>

theorem unsubscribe_not_capped:
  "(let s = run default_config [Upgrade \<lparr> url_pathname = Some ''/ws'', origin = None \<rparr>,
                Message 0 (Some (sub_env [JStr ''z'']))] init_state
    in topics s ''z'' = Some [0] \<and> subscribedTopics (conns s 0) = [''z''] \<and>
       (case on_message 0 (Some (unsub_env (replicate 64 (JStr ''a'') @ [JStr ''z'']))) s of
          Inl err \<Rightarrow> False
        | Inr s' \<Rightarrow> topics s' ''z'' = None \<and> subscribedTopics (conns s' 0) = []))"
  by code_simp

section \<open>Publishing\<close>

lemma publish_loop_filter:
  "fold (\<lambda>receiver s'. if receiver \<noteq> c then send receiver m s' else s') rs s =
   fold (\<lambda>x. upd_conn x (send_conn m)) (filter (\<lambda>r. r \<noteq> c) rs) s"
  by (induction rs arbitrary: s) (simp_all add: send_def)

lemma publish_loop:
  assumes "distinct rs"
  shows "fold (\<lambda>receiver s'. if receiver \<noteq> c then send receiver m s' else s') rs s =
     s\<lparr> conns := (\<lambda>r. if r \<in> set rs \<and> r \<noteq> c then send_conn m (conns s r) else conns s r) \<rparr>"
proof -
  have "distinct (filter (\<lambda>r. r \<noteq> c) rs)" using assms by simp
  then show ?thesis
    by (simp add: publish_loop_filter fold_upd_conn)
qed

lemma on_message_publish:
  "field message ''type'' = Some (JStr ''publish'') \<Longrightarrow>
   on_message c (Some message) s = Inr (publish c message s)"
  by (simp add: on_message_def)

lemma publish_to_topic:
  assumes "inv_distinct s" and "field message ''topic'' = Some (JStr t)" and "t \<noteq> []"
    and "topics s t = Some receivers"
  shows "publish c message s =
     s\<lparr> conns := (\<lambda>r. if r \<in> set receivers \<and> r \<noteq> c then send_conn message (conns s r)
                      else conns s r) \<rparr>"
proof -
  have "distinct receivers" using assms(1,4) by (simp add: inv_distinct_def)
  then show ?thesis using assms(2-4) by (simp add: publish_def publish_loop)
qed

lemma publish_nowhere:
  assumes "\<forall>t. field message ''topic'' = Some (JStr t) \<longrightarrow> t = [] \<or> topics s t = None"
  shows "publish c message s = s"
  using assms by (auto simp: publish_def split: option.splits json.splits)

lemma send_conn_delivers:
  "readyState k = OPEN \<Longrightarrow> bufferedAmount k \<le> 1000000 \<Longrightarrow> \<not> sendThrows k \<Longrightarrow>
   sent (send_conn m k) = sent k @ [m]"
  by (simp add: send_conn_def)

subsection \<open>Subscriber sets hold each socket once\<close>

lemma inv_distinct_same: "same_registry s s' \<Longrightarrow> inv_distinct s \<Longrightarrow> inv_distinct s'"
  by (simp add: same_registry_def inv_distinct_def)

lemma inv_distinct_subscribe_one: "inv_distinct s \<Longrightarrow> inv_distinct (subscribe_one c j s)"
  by (cases j) (auto simp: inv_distinct_def Let_def distinct_set_add split: option.splits)

lemma inv_distinct_unsubscribe_one: "inv_distinct s \<Longrightarrow> inv_distinct (unsubscribe_one c j s)"
  by (cases j) (auto simp: inv_distinct_def Let_def distinct_set_delete split: option.splits)

lemma inv_distinct_on_close: "inv_distinct s \<Longrightarrow> inv_distinct (on_close c s)"
  by (auto simp: inv_distinct_def topics_on_close without_def distinct_set_delete
           split: option.splits if_splits)

lemma inv_distinct_on_message:
  assumes "inv_distinct s" and "on_message c d s = Inr s'"
  shows "inv_distinct s'"
proof -
  have sub: "inv_distinct (fold (subscribe_one c) xs s)" for xs
    using assms(1) by (rule fold_preserves [rotated]) (rule inv_distinct_subscribe_one)
  have unsub: "inv_distinct (fold (unsubscribe_one c) xs s)" for xs
    using assms(1) by (rule fold_preserves [rotated]) (rule inv_distinct_unsubscribe_one)
  have pub: "inv_distinct (publish c m s)" for m
    using same_registry_publish assms(1) by (rule inv_distinct_same)
  have png: "inv_distinct (send c m s)" for m
    using same_registry_send assms(1) by (rule inv_distinct_same)
  show ?thesis
    using on_message_Inr [OF assms(2)] assms(1) sub unsub pub png by auto
qed

lemma inv_distinct_step:
  assumes "inv_distinct s" and "step cfg e s = Inr s'"
  shows "inv_distinct s'"
proof (cases e)
  case (Upgrade req)
  then show ?thesis using assms by (auto simp: inv_distinct_def)
next
  case (Message c d)
  then show ?thesis using assms by (auto simp: inv_distinct_on_message split: if_splits)
next
  case (Pong c)
  then show ?thesis using assms by (auto simp: on_pong_def inv_distinct_def split: if_splits)
next
  case (Close c)
  have "inv_distinct (on_close c s)" using assms(1) by (rule inv_distinct_on_close)
  then show ?thesis using Close assms by (auto simp: inv_distinct_def split: if_splits)
next
  case Tick
  then show ?thesis using assms inv_distinct_same [OF same_registry_on_tick] by auto
next
  case (Transport c rs ba st pt)
  then show ?thesis using assms by (auto simp: inv_distinct_def split: if_splits)
qed

lemma inv_distinct_run: "inv_distinct (run cfg evs init_state)"
proof -
  have "inv_distinct init_state" by (simp add: inv_distinct_def init_state_def)
  then show ?thesis
    by (rule run_preserves [where P = inv_distinct]) (simp add: inv_distinct_step)
qed

text \<open>
  Claim C4. Let the envelope have type publish. If its topic field is a non-empty string
  with a registry entry, the handler calls \<^verbatim>\<open>send\<close> with the whole envelope once for
  every member of the entry other than the publisher, and changes nothing else: a
  receiver that is open, not backlogged and whose transport does not raise gets the
  envelope appended to what it was sent; the publisher's connection is as before. If the
  topic field is absent, not a string, empty, or has no registry entry, the state is
  unchanged.
\<close>

theorem publish_delivery:
  assumes "s = run cfg evs init_state"
    and "field message ''type'' = Some (JStr ''publish'')"
  shows
    "(field message ''topic'' = Some (JStr t) \<and> t \<noteq> [] \<and> topics s t = Some receivers \<longrightarrow>
        (\<exists>s'. on_message c (Some message) s = Inr s' \<and>
          s' = s\<lparr> conns := (\<lambda>r. if r \<in> set receivers \<and> r \<noteq> c
                                 then send_conn message (conns s r) else conns s r) \<rparr> \<and>
          (\<forall>r \<in> set receivers. r \<noteq> c \<and> readyState (conns s r) = OPEN \<and>
               bufferedAmount (conns s r) \<le> 1000000 \<and> \<not> sendThrows (conns s r) \<longrightarrow>
               sent (conns s' r) = sent (conns s r) @ [message]) \<and>
          conns s' c = conns s c))
     \<and> ((\<forall>u. field message ''topic'' = Some (JStr u) \<longrightarrow> u = [] \<or> topics s u = None) \<longrightarrow>
          on_message c (Some message) s = Inr s)"
proof -
  have d: "inv_distinct s" using assms(1) by (simp add: inv_distinct_run)
  have pub: "on_message c (Some message) s = Inr (publish c message s)"
    using assms(2) by (rule on_message_publish)
  show ?thesis
    unfolding pub
    by (auto simp: publish_to_topic [OF d] publish_nowhere send_conn_delivers)
qed

theorem publish_delivery_witness:
  "field (pub_env ''x'') ''type'' = Some (JStr ''publish'') \<and>
   field (pub_env ''x'') ''topic'' = Some (JStr ''x'') \<and> ''x'' \<noteq> [] \<and>
   topics rooms ''x'' = Some [0, 1] \<and>
   readyState (conns rooms 1) = OPEN \<and> bufferedAmount (conns rooms 1) \<le> 1000000 \<and>
   \<not> sendThrows (conns rooms 1) \<and>
   (\<exists>s'. on_message 0 (Some (pub_env ''x'')) rooms = Inr s' \<and>
      sent (conns s' 1) = [pub_env ''x''] \<and>
      conns s' 0 = conns rooms 0) \<and>
   sent (conns rooms 0) = [] \<and>
   field (pub_env ''nowhere'') ''topic'' = Some (JStr ''nowhere'') \<and>
   topics rooms ''nowhere'' = None \<and>
   on_message 0 (Some (pub_env ''nowhere'')) rooms = Inr rooms"
proof -
  have ty: "field (pub_env u) ''type'' = Some (JStr ''publish'')" for u
    by (simp add: pub_env_def)
  have tp: "field (pub_env u) ''topic'' = Some (JStr u)" for u
    by (simp add: pub_env_def)
  have c1: "readyState (conns rooms 1) = OPEN \<and> bufferedAmount (conns rooms 1) \<le> 1000000 \<and>
     \<not> sendThrows (conns rooms 1) \<and> sent (conns rooms 1) = [] \<and> sent (conns rooms 0) = []"
    using rooms_conns by (simp add: new_conn_def)
  from publish_delivery [OF rooms_def ty, of "''x''" "''x''" "[0, 1]" 0]
    publish_delivery [OF rooms_def ty, of "''nowhere''" "''nowhere''" "[]" 0]
    ty tp c1 rooms_topics
  show ?thesis by (simp add: send_conn_delivers)
qed

text \<open>
  Claim C10. A publisher that is not in the subscriber set of the topic is served like
  any other: \<^verbatim>\<open>send\<close> is called with the envelope for every member of the set, and the
  publisher's own connection is untouched (nothing is sent to it, it is not closed).
\<close>

theorem publish_without_subscription:
  assumes "s = run cfg evs init_state"
    and "field message ''type'' = Some (JStr ''publish'')"
    and "field message ''topic'' = Some (JStr t)" and "t \<noteq> []"
    and "topics s t = Some receivers" and "c \<notin> set receivers"
  shows
    "\<exists>s'. on_message c (Some message) s = Inr s' \<and>
       s' = s\<lparr> conns := (\<lambda>r. if r \<in> set receivers then send_conn message (conns s r)
                              else conns s r) \<rparr> \<and>
       (\<forall>r \<in> set receivers. readyState (conns s r) = OPEN \<and>
             bufferedAmount (conns s r) \<le> 1000000 \<and> \<not> sendThrows (conns s r) \<longrightarrow>
             sent (conns s' r) = sent (conns s r) @ [message]) \<and>
       conns s' c = conns s c"
proof -
  have d: "inv_distinct s" using assms(1) by (simp add: inv_distinct_run)
  have pub: "on_message c (Some message) s = Inr (publish c message s)"
    using assms(2) by (rule on_message_publish)
  have eq: "(\<lambda>r. if r \<in> set receivers \<and> r \<noteq> c then send_conn message (conns s r) else conns s r)
      = (\<lambda>r. if r \<in> set receivers then send_conn message (conns s r) else conns s r)"
    using assms(6) by (auto simp: fun_eq_iff)
  show ?thesis
    unfolding pub publish_to_topic [OF d assms(3-5)] eq
    using assms(6) by (auto simp: send_conn_delivers)
qed

theorem publish_without_subscription_witness:
  "field (pub_env ''x'') ''type'' = Some (JStr ''publish'') \<and>
   field (pub_env ''x'') ''topic'' = Some (JStr ''x'') \<and> ''x'' \<noteq> [] \<and>
   topics rooms ''x'' = Some [0, 1] \<and> 2 \<notin> set [0, 1::nat] \<and>
   readyState (conns rooms 0) = OPEN \<and> bufferedAmount (conns rooms 0) \<le> 1000000 \<and>
   \<not> sendThrows (conns rooms 0) \<and>
   (\<exists>s'. on_message 2 (Some (pub_env ''x'')) rooms = Inr s' \<and>
      sent (conns s' 0) = [pub_env ''x''] \<and>
      sent (conns s' 1) = [pub_env ''x''] \<and>
      conns s' 2 = conns rooms 2)"
proof -
  have ty: "field (pub_env ''x'') ''type'' = Some (JStr ''publish'')"
    by (simp add: pub_env_def)
  have tp: "field (pub_env ''x'') ''topic'' = Some (JStr ''x'')"
    by (simp add: pub_env_def)
  have ne: "''x'' \<noteq> []" by simp
  have notin: "2 \<notin> set [0, 1::nat]" by simp
  have c: "readyState (conns rooms 0) = OPEN \<and> bufferedAmount (conns rooms 0) \<le> 1000000 \<and>
     \<not> sendThrows (conns rooms 0) \<and> sent (conns rooms 0) = [] \<and>
     readyState (conns rooms 1) = OPEN \<and> bufferedAmount (conns rooms 1) \<le> 1000000 \<and>
     \<not> sendThrows (conns rooms 1) \<and> sent (conns rooms 1) = []"
    using rooms_conns by (simp add: new_conn_def)
  from publish_without_subscription [OF rooms_def ty tp ne rooms_topics(1) notin] ty tp c rooms_topics
  show ?thesis by (simp add: send_conn_delivers)
qed

section \<open>Admission\<close>

lemma admit_iff:
  "admit cfg req \<longleftrightarrow>
     url_pathname req = Some (WS_PATH cfg) \<and>
     (origin req = None \<or> origin req = Some [] \<or> (\<exists>hdr. origin req = Some hdr \<and> hdr \<in> set (ALLOWED_ORIGINS cfg)))"
  by (auto simp: admit_def split: option.splits)

lemma on_upgrade_rejected: "\<not> admit cfg req \<Longrightarrow> on_upgrade cfg req s = s"
  by (simp add: on_upgrade_def)

text \<open>
  Claim C5. The claim asks that a request whose origin header is present and not in the
  allow-set is refused. The handler tests the header for truthiness, so a request for
  the subscribe path with an empty origin header is admitted and becomes a connection.
\<close>

theorem admit_empty_origin:
  "admit default_config \<lparr> url_pathname = Some ''/ws'', origin = Some '''' \<rparr>
   \<and> '''' \<notin> set (ALLOWED_ORIGINS default_config)
   \<and> nextSock (on_upgrade default_config \<lparr> url_pathname = Some ''/ws'', origin = Some '''' \<rparr> init_state) = 1"
  by (simp add: admit_def default_config_def on_upgrade_def on_connection_def upd_conn_def init_state_def)

section \<open>Delivery under backpressure\<close>

text \<open>
  Claim C6. A delivery to a connection whose transport is open and whose buffered amount
  exceeds 1,000,000 changes nothing: no envelope is handed to the transport and
  \<^verbatim>\<open>close()\<close> is not called.
\<close>

theorem send_backpressure_skips:
  assumes "readyState (conns s c) = OPEN" and "bufferedAmount (conns s c) > 1000000"
  shows "send c message s = s \<and> send_conn message (conns s c) = conns s c"
  using assms by (simp add: send_def send_conn_def upd_conn_id)

theorem send_backpressure_skips_witness:
  "readyState (conns backlogged 0) = OPEN \<and> bufferedAmount (conns backlogged 0) > 1000000
   \<and> send 0 (JObj [(''type'', JStr ''publish''), (''topic'', JStr ''x'')]) backlogged = backlogged
   \<and> sent (conns backlogged 0) = []  \<and> closeCalls (conns backlogged 0) = 0"
proof -
  have h1: "readyState (conns backlogged 0) = OPEN"
    by (simp add: backlogged_def run_simps)
  have h2: "bufferedAmount (conns backlogged 0) > 1000000"
    by (simp add: backlogged_def run_simps)
  have h3: "sent (conns backlogged 0) = []  \<and> closeCalls (conns backlogged 0) = 0"
    by (simp add: backlogged_def run_simps)
  from send_backpressure_skips [OF h1 h2] h1 h2 h3 show ?thesis by simp
qed

section \<open>Heartbeat\<close>

lemma on_tick_conns:
  "distinct (clients s) \<Longrightarrow>
   on_tick s = s\<lparr> conns := (\<lambda>c. if c \<in> set (clients s) then heartbeat_conn (conns s c)
                                 else conns s c) \<rparr>"
  by (simp add: on_tick_def fold_upd_conn)

lemma tracked_subscribe_one [simp]:
  "clients (subscribe_one c j s) = clients s"
  by (cases j) (simp_all add: Let_def)

lemma tracked_unsubscribe_one [simp]:
  "clients (unsubscribe_one c j s) = clients s"
  by (cases j) (simp_all add: Let_def split: option.splits)

lemma clients_publish [simp]: "clients (publish c m s) = clients s"
  using same_registry_publish [of s c m] by (simp add: same_registry_def)

lemma nextSock_publish [simp]: "nextSock (publish c m s) = nextSock s"
  using same_registry_publish [of s c m] by (simp add: same_registry_def)

lemma clients_on_message:
  assumes "on_message c d s = Inr s'"
  shows "clients s' = clients s"
proof -
  have sub: "clients (fold (subscribe_one c) xs s) = clients s" for xs
    by (rule fold_keeps) simp
  have unsub: "clients (fold (unsubscribe_one c) xs s) = clients s" for xs
    by (rule fold_keeps) simp
  show ?thesis
    using on_message_Inr [OF assms] sub unsub by (auto simp: send_def)
qed

lemma nextSock_on_message:
  assumes "on_message c d s = Inr s'"
  shows "nextSock s' = nextSock s"
proof -
  have sub: "nextSock (fold (subscribe_one c) xs s) = nextSock s" for xs
    by (rule fold_keeps) simp
  have unsub: "nextSock (fold (unsubscribe_one c) xs s) = nextSock s" for xs
    by (rule fold_keeps) simp
  show ?thesis
    using on_message_Inr [OF assms] sub unsub by (auto simp: send_def)
qed

lemma inv_tracked_step:
  assumes "inv_tracked s" and "step cfg e s = Inr s'"
  shows "inv_tracked s'"
proof (cases e)
  case (Upgrade req)
  then show ?thesis using assms
    by (auto simp: inv_tracked_def on_upgrade_def on_connection_def Let_def distinct_set_add
          less_Suc_eq)
next
  case (Message c d)
  then show ?thesis using assms
    by (auto simp: inv_tracked_def clients_on_message nextSock_on_message split: if_splits)
next
  case (Pong c)
  then show ?thesis using assms by (auto simp: inv_tracked_def on_pong_def split: if_splits)
next
  case (Close c)
  then show ?thesis using assms
    by (auto simp: inv_tracked_def distinct_set_delete split: if_splits)
next
  case Tick
  then show ?thesis using assms same_registry_on_tick [of s]
    by (auto simp: inv_tracked_def same_registry_def)
next
  case (Transport c rs ba st pt)
  then show ?thesis using assms by (auto simp: inv_tracked_def split: if_splits)
qed

lemma inv_tracked_run: "inv_tracked s \<Longrightarrow> inv_tracked (run cfg evs s)"
  by (rule run_preserves [where P = inv_tracked]) (simp_all add: inv_tracked_step)

lemma inv_tracked_init: "inv_tracked init_state"
  by (simp add: inv_tracked_def init_state_def)

subsection \<open>A socket whose flag is down stays so until its pong\<close>

lemma isAlive_heartbeat_conn [simp]: "\<not> isAlive (heartbeat_conn k)"
  by (simp add: heartbeat_conn_def Let_def)

lemma isAlive_send_conn [simp]: "isAlive (send_conn m k) = isAlive k"
  by (simp add: send_conn_def)

lemma isAlive_subscribe_one [simp]:
  "isAlive (conns (subscribe_one c j s) c') = isAlive (conns s c')"
  by (cases j) (simp_all add: Let_def)

lemma isAlive_unsubscribe_one [simp]:
  "isAlive (conns (unsubscribe_one c j s) c') = isAlive (conns s c')"
  by (cases j) (simp_all add: Let_def split: option.splits)

lemma isAlive_send [simp]: "isAlive (conns (send c m s) c') = isAlive (conns s c')"
  by (simp add: send_def)

lemma isAlive_publish [simp]: "isAlive (conns (publish c m s) c') = isAlive (conns s c')"
proof -
  have "isAlive (conns (fold (\<lambda>receiver s'. if receiver \<noteq> c then send receiver m s' else s') rs s) c')
        = isAlive (conns s c')" for rs
    by (rule fold_keeps [where g = "\<lambda>s. isAlive (conns s c')"]) simp
  then show ?thesis
    by (simp add: publish_def split: option.splits json.splits)
qed

lemma isAlive_on_message:
  assumes "on_message c d s = Inr s'"
  shows "isAlive (conns s' c') = isAlive (conns s c')"
proof -
  have sub: "isAlive (conns (fold (subscribe_one c) xs s) c') = isAlive (conns s c')" for xs
    by (rule fold_keeps [where g = "\<lambda>s. isAlive (conns s c')"]) simp
  have unsub: "isAlive (conns (fold (unsubscribe_one c) xs s) c') = isAlive (conns s c')" for xs
    by (rule fold_keeps [where g = "\<lambda>s. isAlive (conns s c')"]) simp
  show ?thesis
    using on_message_Inr [OF assms] sub unsub by auto
qed

lemma suspected_on_tick: "suspected c s \<Longrightarrow> suspected c (on_tick s)"
  unfolding on_tick_def
  by (rule fold_preserves [where P = "suspected c"]) (auto simp: suspected_def)

lemma suspected_step:
  assumes "e \<noteq> Pong c" and "suspected c s" and "step cfg e s = Inr s'"
  shows "suspected c s'"
proof (cases e)
  case (Upgrade req)
  then show ?thesis using assms(2,3)
    by (auto simp: suspected_def on_upgrade_def on_connection_def Let_def split: if_splits)
next
  case (Message c' d)
  then show ?thesis using assms(2,3)
    by (auto simp: suspected_def isAlive_on_message nextSock_on_message split: if_splits)
next
  case (Pong c')
  then show ?thesis using assms by (auto simp: suspected_def on_pong_def split: if_splits)
next
  case (Close c')
  then show ?thesis using assms(2,3)
    by (auto simp: suspected_def conns_on_close split: if_splits)
next
  case Tick
  then show ?thesis using assms(2,3) by (auto simp: suspected_on_tick)
next
  case (Transport c' rs ba st pt)
  then show ?thesis using assms(2,3) by (auto simp: suspected_def split: if_splits)
qed

lemma suspected_run:
  assumes "Pong c \<notin> set evs" and "suspected c s"
  shows "suspected c (run cfg evs s)"
proof (rule run_invariant [where Q = "\<lambda>e. e \<noteq> Pong c" and P = "suspected c"])
  show "\<And>e. e \<in> set evs \<Longrightarrow> e \<noteq> Pong c" using assms(1) by blast
  show "suspected c s" by (rule assms(2))
  show "\<And>e s s'. e \<noteq> Pong c \<Longrightarrow> suspected c s \<Longrightarrow> step cfg e s = Inr s' \<Longrightarrow> suspected c s'"
    by (rule suspected_step)
qed

text \<open>
  Claim C7. On a tick, a tracked socket whose flag is down gets \<^verbatim>\<open>terminate()\<close>; a
  tracked socket whose flag is up has it set down and gets a ping, or, when the ping
  raises, \<^verbatim>\<open>terminate()\<close> at once. Hence a socket that sends no pong between two ticks
  and is still tracked at the second gets \<^verbatim>\<open>terminate()\<close> at the second tick.
\<close>

theorem heartbeat_tick:
  assumes "s = run cfg evs init_state" and "c \<in> set (clients s)"
  shows
    "(\<not> isAlive (conns s c) \<longrightarrow>
        conns (on_tick s) c = (conns s c)\<lparr> terminateCalls := Suc (terminateCalls (conns s c)) \<rparr>)
     \<and> (isAlive (conns s c) \<and> \<not> pingThrows (conns s c) \<longrightarrow>
        conns (on_tick s) c =
          (conns s c)\<lparr> isAlive := False, pingsSent := Suc (pingsSent (conns s c)) \<rparr>)
     \<and> (isAlive (conns s c) \<and> pingThrows (conns s c) \<longrightarrow>
        conns (on_tick s) c =
          (conns s c)\<lparr> isAlive := False, terminateCalls := Suc (terminateCalls (conns s c)) \<rparr>)
     \<and> (Pong c \<notin> set evs' \<and> c \<in> set (clients (run cfg evs' (on_tick s))) \<longrightarrow>
        terminateCalls (conns (on_tick (run cfg evs' (on_tick s))) c) =
          Suc (terminateCalls (conns (run cfg evs' (on_tick s)) c)))"
proof -
  have tr: "inv_tracked s" using assms(1) by (simp add: inv_tracked_run inv_tracked_init)
  then have tick: "conns (on_tick s) c = heartbeat_conn (conns s c)"
    using assms(2) by (simp add: inv_tracked_def on_tick_conns)
  have first: "suspected c (on_tick s)"
    using tr assms(2) tick same_registry_on_tick [of s]
    by (simp add: suspected_def inv_tracked_def same_registry_def)
  have "inv_tracked (on_tick s)"
    using tr by (rule inv_tracked_step [where e = Tick]) simp
  then have tr2: "inv_tracked (run cfg evs' (on_tick s))"
    by (rule inv_tracked_run)
  have last: "terminateCalls (conns (on_tick (run cfg evs' (on_tick s))) c) =
          Suc (terminateCalls (conns (run cfg evs' (on_tick s)) c))"
    if "Pong c \<notin> set evs'" and "c \<in> set (clients (run cfg evs' (on_tick s)))"
  proof -
    have "suspected c (run cfg evs' (on_tick s))"
      using that(1) first by (rule suspected_run)
    then have "\<not> isAlive (conns (run cfg evs' (on_tick s)) c)" by (simp add: suspected_def)
    then show ?thesis
      using tr2 that(2) by (simp add: inv_tracked_def on_tick_conns heartbeat_conn_def)
  qed
  show ?thesis
    using tick last by (simp add: heartbeat_conn_def Let_def)
qed

theorem heartbeat_tick_witness:
  "0 \<in> set (clients rooms) \<and> isAlive (conns rooms 0) \<and> \<not> pingThrows (conns rooms 0) \<and>
   conns (on_tick rooms) 0 = (conns rooms 0)\<lparr> isAlive := False, pingsSent := 1 \<rparr> \<and>
   Pong 0 \<notin> set [Message 0 (Some (pub_env ''x'')), Pong 1] \<and>
   0 \<in> set (clients (run default_config [Message 0 (Some (pub_env ''x'')), Pong 1] (on_tick rooms))) \<and>
   terminateCalls (conns (on_tick
       (run default_config [Message 0 (Some (pub_env ''x'')), Pong 1] (on_tick rooms))) 0) =
     Suc (terminateCalls (conns
       (run default_config [Message 0 (Some (pub_env ''x'')), Pong 1] (on_tick rooms)) 0)) \<and>
   1 \<in> set (clients rooms_ping_fails) \<and> isAlive (conns rooms_ping_fails 1) \<and>
   pingThrows (conns rooms_ping_fails 1) \<and>
   terminateCalls (conns (on_tick rooms_ping_fails) 1) = 1 \<and>
   pingsSent (conns (on_tick rooms_ping_fails) 1) = 0 \<and>
   0 \<in> set (clients rooms_ticked) \<and> \<not> isAlive (conns rooms_ticked 0) \<and>
   terminateCalls (conns (on_tick rooms_ticked) 0) = 1"
proof -
  have a: "0 \<in> set (clients rooms)" by (simp add: rooms_clients)
  have b: "isAlive (conns rooms 0) \<and> \<not> pingThrows (conns rooms 0) \<and>
     pingsSent (conns rooms 0) = 0 \<and> terminateCalls (conns rooms 0) = 0"
    using rooms_conns by (simp add: new_conn_def)
  have first: "conns (on_tick rooms) 0 = (conns rooms 0)\<lparr> isAlive := False, pingsSent := 1 \<rparr>"
    using heartbeat_tick [OF rooms_def a, of "[]"] b by simp
  have cl: "clients (run default_config [Message 0 (Some (pub_env ''x'')), Pong 1] (on_tick rooms))
      = [0, 1, 2]"
    by (simp add: on_message_publish pub_env_def rooms_clients rooms_nextSock on_pong_def)
  have a2: "0 \<in> set (clients rooms_ticked)" by (simp add: rooms_ticked_eq rooms_clients)
  have b2: "\<not> isAlive (conns rooms_ticked 0) \<and> terminateCalls (conns rooms_ticked 0) = 0"
    using first b by (simp add: rooms_ticked_eq)
  have a3: "1 \<in> set (clients rooms_ping_fails)" using rooms_ping_fails_1 by simp
  from heartbeat_tick [OF rooms_def a, of "[Message 0 (Some (pub_env ''x'')), Pong 1]"]
    heartbeat_tick [OF rooms_ping_fails_def a3, of "[]"]
    heartbeat_tick [OF rooms_ticked_def a2, of "[]"]
    a a2 b cl first b2 rooms_ping_fails_1
  show ?thesis by simp
qed

section \<open>Messages that are ignored\<close>

text \<open>
  A message that does not parse is dropped. An envelope of another type than the four
  reaches the \<^verbatim>\<open>default\<close> case; when its type converts to a string, the state is as before.
\<close>

lemma on_message_default:
  assumes "\<forall>ty. field message ''type'' = Some (JStr ty) \<longrightarrow>
             ty \<notin> {''subscribe'', ''unsubscribe'', ''publish'', ''ping''}"
  shows "on_message c (Some message) s = unhandled message s"
  using assms by (auto simp: on_message_def split: option.splits json.splits)

lemma ignored_message_unchanged:
  "on_message c None s = Inr s \<and>
   ((\<forall>ty. field message ''type'' = Some (JStr ty) \<longrightarrow>
          ty \<notin> {''subscribe'', ''unsubscribe'', ''publish'', ''ping''}) \<and>
    (\<forall>v. field message ''type'' = Some v \<longrightarrow> \<not> to_string_throws v)
     \<longrightarrow> on_message c (Some message) s = Inr s)"
proof -
  have "on_message c (Some message) s = Inr s"
    if a: "\<forall>ty. field message ''type'' = Some (JStr ty) \<longrightarrow>
             ty \<notin> {''subscribe'', ''unsubscribe'', ''publish'', ''ping''}"
      and b: "\<forall>v. field message ''type'' = Some v \<longrightarrow> \<not> to_string_throws v"
  proof -
    have "on_message c (Some message) s = unhandled message s"
      using a by (rule on_message_default)
    then show ?thesis using b by (simp add: unhandled_def split: option.splits)
  qed
  then show ?thesis by (simp add: on_message_def)
qed

lemma unhandled_raises:
  assumes "field message ''type'' = Some v" and "to_string_throws v"
  shows "on_message c (Some message) s = Inl TypeError"
proof -
  have "v \<noteq> JStr ty" for ty using assms(2) by auto
  then have "on_message c (Some message) s = unhandled message s"
    using assms(1) by (intro on_message_default) auto
  then show ?thesis using assms by (simp add: unhandled_def)
qed

text \<open>
  Claim C8. The claim asks that an envelope whose type is none of subscribe,
  unsubscribe, publish and ping changes nothing and leaves the connection open. The
  \<^verbatim>\<open>default\<close> case writes the type into a template literal: for the envelope
  \<^verbatim>\<open>{"type":{"toString":1}}\<close> the conversion raises a \<^verbatim>\<open>TypeError\<close> that nothing
  catches, which ends the process; the events after it are not handled.
\<close>

theorem unhandled_type_raises:
  "field unprintable_env ''type'' = Some (JObj [(''toString'', JNum 1)]) \<and>
   on_message 1 (Some unprintable_env) rooms = Inl TypeError \<and>
   step default_config (Message 1 (Some unprintable_env)) rooms = Inl TypeError \<and>
   run default_config [Message 1 (Some unprintable_env), Close 0] rooms = rooms \<and>
   run default_config [Close 0] rooms \<noteq> rooms"
proof -
  have f: "field unprintable_env ''type'' = Some (JObj [(''toString'', JNum 1)])"
    by (simp add: unprintable_env_def)
  have m: "on_message 1 (Some unprintable_env) rooms = Inl TypeError"
    using f by (rule unhandled_raises) simp
  have c: "run default_config [Close 0] rooms \<noteq> rooms"
  proof
    assume "run default_config [Close 0] rooms = rooms"
    then have "clients (run default_config [Close 0] rooms) = clients rooms" by simp
    then show False by (simp add: rooms_clients rooms_nextSock set_delete_def)
  qed
  show ?thesis using f m c by (simp add: rooms_nextSock)
qed

section \<open>Subscribing twice\<close>

lemma subscribe_one_noop:
  assumes "subscribed c t s"
  shows "subscribe_one c (JStr t) s = s"
proof (cases "t = []")
  case True
  then show ?thesis by simp
next
  case False
  from assms obtain subs where subs: "topics s t = Some subs" "c \<in> set subs"
    by (auto simp: subscribed_def member_of_def split: option.splits)
  have own: "t \<in> set (subscribedTopics (conns s c))"
    using assms by (simp add: subscribed_def)
  have "(topics s)(t \<mapsto> subs) = topics s"
    using subs(1) by (rule map_upd_triv)
  then show ?thesis
    using False subs own by (simp add: set_add_member upd_conn_def)
qed

lemma subscribed_kept: "subscribed c t s \<Longrightarrow> subscribed c t (subscribe_one c' j s)"
proof (cases "\<exists>u. j = JStr u \<and> u \<noteq> []")
  case True
  assume "subscribed c t s"
  with True show ?thesis
    by (auto simp: subscribed_def member_of_subscribe_one subscribed_subscribe_one
          simp del: subscribe_one.simps)
next
  case False
  then have "subscribe_one c' j s = s" by (cases j) auto
  moreover assume "subscribed c t s"
  ultimately show ?thesis by simp
qed

lemma subscribed_after: "t \<noteq> [] \<Longrightarrow> subscribed c t (subscribe_one c (JStr t) s)"
  by (simp add: subscribed_def member_of_subscribe_one subscribed_subscribe_one
        del: subscribe_one.simps)

lemma subscribed_fold:
  "\<forall>j \<in> set xs. \<forall>t. j = JStr t \<and> t \<noteq> [] \<longrightarrow> subscribed c t (fold (subscribe_one c) xs s)"
proof (induction xs arbitrary: s)
  case Nil
  show ?case by simp
next
  case (Cons x xs)
  have "subscribed c t (fold (subscribe_one c) xs (subscribe_one c x s))"
    if "x = JStr t" and "t \<noteq> []" for t
  proof -
    have "subscribed c t (subscribe_one c x s)"
      using that by (simp add: subscribed_after del: subscribe_one.simps)
    then show ?thesis
      by (rule fold_preserves [where P = "subscribed c t", rotated]) (rule subscribed_kept)
  qed
  then show ?case using Cons.IH [of "subscribe_one c x s"] by auto
qed

lemma subscribe_fold_noop:
  "\<forall>j \<in> set xs. \<forall>t. j = JStr t \<and> t \<noteq> [] \<longrightarrow> subscribed c t s \<Longrightarrow>
   fold (subscribe_one c) xs s = s"
proof (induction xs)
  case Nil
  show ?case by simp
next
  case (Cons x xs)
  have "subscribe_one c x s = s"
  proof (cases "\<exists>t. x = JStr t \<and> t \<noteq> []")
    case True
    then show ?thesis using Cons.prems by (auto simp: subscribe_one_noop simp del: subscribe_one.simps)
  next
    case False
    then show ?thesis by (cases x) auto
  qed
  then show ?case using Cons by simp
qed

text \<open>
  Claim C9. After a subscribe envelope the socket is subscribed to every topic the
  envelope names among its first 64 entries; a subscribe envelope that names only topics
  the socket is subscribed to leaves the state as it is (the subscriber sets, their
  sizes, the socket's subscribed set); so handling the same subscribe envelope a second
  time changes nothing.
\<close>

theorem subscribe_twice_noop:
  assumes "field message ''type'' = Some (JStr ''subscribe'')"
  shows
    "(\<exists>s'. on_message c (Some message) s = Inr s' \<and>
        (\<forall>j \<in> set (take 64 (topics_list message)). \<forall>t. j = JStr t \<and> t \<noteq> [] \<longrightarrow>
           subscribed c t s') \<and>
        on_message c (Some message) s' = Inr s')
     \<and> ((\<forall>j \<in> set (take 64 (topics_list message)). \<forall>t. j = JStr t \<and> t \<noteq> [] \<longrightarrow>
           subscribed c t s)
         \<longrightarrow> on_message c (Some message) s = Inr s)"
proof -
  have m: "on_message c (Some message) s' =
      Inr (fold (subscribe_one c) (take 64 (topics_list message)) s')" for s'
    using assms by (simp add: on_message_def)
  have after: "\<forall>j \<in> set (take 64 (topics_list message)). \<forall>t. j = JStr t \<and> t \<noteq> [] \<longrightarrow>
         subscribed c t (fold (subscribe_one c) (take 64 (topics_list message)) s)"
    by (rule subscribed_fold)
  have noop: "on_message c (Some message) s' = Inr s'"
    if "\<forall>j \<in> set (take 64 (topics_list message)). \<forall>t. j = JStr t \<and> t \<noteq> [] \<longrightarrow> subscribed c t s'"
    for s'
    unfolding m using that by (simp add: subscribe_fold_noop)
  from m [of s] after noop [of s] noop [OF after] show ?thesis by blast
qed

theorem subscribe_twice_noop_witness:
  "field (sub_env [JStr ''x'']) ''type'' = Some (JStr ''subscribe'') \<and>
   subscribed 1 ''x'' rooms \<and>
   on_message 1 (Some (sub_env [JStr ''x''])) rooms = Inr rooms \<and>
   (\<exists>s'. on_message 2 (Some (sub_env [JStr ''x''])) rooms = Inr s' \<and>
      subscribed 2 ''x'' s' \<and>
      on_message 2 (Some (sub_env [JStr ''x''])) s' = Inr s')"
proof -
  have ty: "field (sub_env [JStr ''x'']) ''type'' = Some (JStr ''subscribe'')"
    by (simp add: sub_env_def)
  have l: "take 64 (topics_list (sub_env [JStr ''x''])) = [JStr ''x'']"
    by (simp add: sub_env_def)
  from subscribe_twice_noop [OF ty, of 1 rooms] subscribe_twice_noop [OF ty, of 2 rooms]
    ty rooms_subscribed
  show ?thesis unfolding l by simp
qed

end
